theory Spec2Isabelle
  imports Main "HOL-Library.Word"
begin

section \<open>The bit sample buffer\<close>

text \<open>
  The capture buffer of the direct-sampling view is a packed bit array: a block of bytes
  (\<open>uint8_t *\<close>) addressed by a linear bit index. It is modelled as a list of 8-bit words.

  Modelled from the spec: \<open>bitmap_set\<close> and \<open>bitmap_get\<close> are called by the view
  (\<open>bitmap_set(privdata->captured,CAPTURED_BITMAP_SIZE,j,level)\<close>) but defined in a file of
  the application that is not among the sources. The specification fixes their contract:
  both compute the byte offset \<open>index/8\<close> and the bit offset \<open>index%8\<close>; \<open>set\<close> writes a
  boolean into that bit, \<open>get\<close> reads it back; a write outside the capacity is rejected
  (the buffer is left as it is). A read outside the capacity yields the low level.
\<close>

definition bitmap_set :: "8 word list \<Rightarrow> nat \<Rightarrow> nat \<Rightarrow> bool \<Rightarrow> 8 word list" where
  "bitmap_set b blen bitpos val =
     (let byte = bitpos div 8; bit_off = bitpos mod 8 in
      if blen \<le> byte then b
      else if val then b[byte := set_bit bit_off (b ! byte)]
      else b[byte := unset_bit bit_off (b ! byte)])"

definition bitmap_get :: "8 word list \<Rightarrow> nat \<Rightarrow> nat \<Rightarrow> bool" where
  "bitmap_get b blen bitpos =
     (let byte = bitpos div 8; bit_off = bitpos mod 8 in
      if blen \<le> byte then False else bit (b ! byte) bit_off)"

section \<open>Input events, application state and hardware\<close>

text \<open>
  The input events of the firmware: a key identity and an event type.
\<close>

datatype InputKey = InputKeyUp | InputKeyDown | InputKeyRight | InputKeyLeft | InputKeyOk
  | InputKeyBack

datatype InputType = InputTypePress | InputTypeRelease | InputTypeShort | InputTypeLong
  | InputTypeRepeat

record InputEvent =
  input_key :: InputKey
  input_type :: InputType

text \<open>
  Faults of the C program that the model keeps as values: dereferencing or calling through
  a null pointer, reading an array beyond its terminator, and misuse of freed memory.
\<close>

datatype fault = NullDeref | OutOfBounds | UseAfterFree | DoubleFree

text \<open>
  The \<open>captured\<close> pointer of the view: \<open>NULL\<close>, a live block with its bytes, or a block
  that has been passed to \<open>free\<close> (the pointer keeps its stale value: the view never
  resets it).
\<close>

datatype captured_ptr = Null | Live "8 word list" | Freed

record DirectSamplingViewPrivData =
  captured :: captured_ptr
  usec_per_pixel :: "32 word"

text \<open>
  Of the radio state only \<open>TxRxStateRx\<close> is named by the views; every other value of the
  enumeration is \<open>TxRxStateOther\<close>.
\<close>

datatype TxRxState = TxRxStateRx | TxRxStateOther nat

record TxRx =
  txrx_state :: TxRxState
  debug_timer_sampling :: bool

text \<open>
  The application object. \<open>view_privdata\<close> is a \<open>void *\<close> that each view casts to its own
  structure, hence the type parameter.
\<close>

record 'p ProtoViewApp =
  view_privdata :: 'p
  direct_sampling_enabled :: bool
  txrx :: TxRx

text \<open>
  What lies outside the program, as explicit state. The radio calls are kept as a log, in
  call order. \<open>gpio_level k\<close> is the level the line has at the \<open>k\<close>-th read of the pin.
  \<open>heap_bytes k\<close> is the value byte \<open>k\<close> of a block holds when \<open>malloc\<close> hands it out
  (what a new block holds is the allocator's matter; the view does not clear it). \<open>waited\<close> logs the cycle count of each busy wait
  of the sampler; the wait itself only reads the cycle counter, and its real-time behaviour
  is not part of the model. The canvas is the list of drawing calls (strings, dots and
  the \<open>usec/px\<close> label with the value it prints); font changes are left out.
\<close>

datatype hal_call = StopAsyncRx | SubghzRx | GpioInitInput | StartAsyncRx
  | RawSamplingWorkerStop | RawSamplingWorkerStart

datatype canvas_op = DrawStr nat nat string | DrawDot nat nat | DrawUsecLabel "32 word"

record Hardware =
  hal_calls :: "hal_call list"
  gpio_level :: "nat \<Rightarrow> bool"
  gpio_reads :: nat
  heap_bytes :: "nat \<Rightarrow> 8 word"
  instructions_per_microsecond :: "32 word"
  waited :: "32 word list"
  canvas :: "canvas_op list"

definition hal :: "hal_call \<Rightarrow> Hardware \<Rightarrow> Hardware" where
  "hal c hw = hw\<lparr>hal_calls := hal_calls hw @ [c]\<rparr>"

definition furi_hal_gpio_read :: "Hardware \<Rightarrow> bool \<times> Hardware" where
  "furi_hal_gpio_read hw = (gpio_level hw (gpio_reads hw), hw\<lparr>gpio_reads := Suc (gpio_reads hw)\<rparr>)"

definition malloc :: "Hardware \<Rightarrow> nat \<Rightarrow> 8 word list" where
  "malloc hw n = map (heap_bytes hw) [0..<n]"

definition busy_wait :: "32 word \<Rightarrow> Hardware \<Rightarrow> Hardware" where
  "busy_wait period hw = hw\<lparr>waited := waited hw @ [period]\<rparr>"

section \<open>The direct-sampling view\<close>

definition CAPTURED_BITMAP_SIZE :: nat where
  "CAPTURED_BITMAP_SIZE = 128 * 64 div 8"

definition DEFAULT_USEC_PER_PIXEL :: "32 word" where
  "DEFAULT_USEC_PER_PIXEL = 50"

definition USEC_PER_PIXEL_SMALL_CHANGE :: "32 word" where
  "USEC_PER_PIXEL_SMALL_CHANGE = 5"

definition USEC_PER_PIXEL_LARGE_CHANGE :: "32 word" where
  "USEC_PER_PIXEL_LARGE_CHANGE = 25"

definition USEC_PER_PIXEL_MIN :: "32 word" where
  "USEC_PER_PIXEL_MIN = 5"

definition USEC_PER_PIXEL_MAX :: "32 word" where
  "USEC_PER_PIXEL_MAX = 300"

text \<open>
  The sampling loop \<open>for (int j = 0; j < CAPTURED_BITMAP_SIZE*8; j++)\<close>, from a given
  \<open>j\<close>. The macro is not parenthesised: the bound expands to \<open>128*64/8*8\<close>, evaluated
  left to right.
\<close>

function sampling_loop ::
  "32 word \<Rightarrow> nat \<Rightarrow> 8 word list \<Rightarrow> Hardware \<Rightarrow> 8 word list \<times> Hardware" where
  "sampling_loop usec j b hw =
     (if j < 128 * 64 div 8 * 8 then
        (let (level, hw1) = furi_hal_gpio_read hw;
             b1 = bitmap_set b CAPTURED_BITMAP_SIZE j level;
             period = instructions_per_microsecond hw1 * usec
         in sampling_loop usec (Suc j) b1 (busy_wait period hw1))
      else (b, hw))"
  by pat_completeness auto
termination
  by (relation "measure (\<lambda>(usec, j, b, hw). 128 * 64 div 8 * 8 - j)") auto

declare sampling_loop.simps [simp del]

text \<open>
  The drawing loop: \<open>idx\<close> runs over the raster row by row; a dot is drawn where the bit is
  set.
\<close>

definition draw_dots :: "8 word list \<Rightarrow> canvas_op list" where
  "draw_dots b =
     concat (map (\<lambda>y. concat (map (\<lambda>x.
        if bitmap_get b CAPTURED_BITMAP_SIZE (y * 128 + x) then [DrawDot x y] else [])
        [0..<128])) [0..<64])"

definition help_text :: "canvas_op list" where
  "help_text =
     [DrawStr 2 9 ''Direct sampling is a special'',
      DrawStr 2 18 ''mode that displays the signal'',
      DrawStr 2 27 ''captured in real time. Like in'',
      DrawStr 2 36 ''a old CRT TV. It's very slow.'',
      DrawStr 2 45 ''Can crash your Flipper.'',
      DrawStr 14 60 ''To enable press OK'']"

text \<open>
  The allocation step of the rendering, \<open>if (privdata->captured == NULL)
  privdata->captured = malloc(CAPTURED_BITMAP_SIZE)\<close>: the new block holds what the
  allocator hands out; the view does not clear it.
\<close>

definition alloc_captured :: "DirectSamplingViewPrivData \<Rightarrow> Hardware \<Rightarrow> captured_ptr" where
  "alloc_captured privdata hw =
     (if captured privdata = Null then Live (malloc hw CAPTURED_BITMAP_SIZE)
      else captured privdata)"

definition render_view_direct_sampling ::
  "DirectSamplingViewPrivData ProtoViewApp \<Rightarrow> Hardware \<Rightarrow>
     fault + (DirectSamplingViewPrivData ProtoViewApp \<times> Hardware)" where
  "render_view_direct_sampling app hw =
     (let privdata = view_privdata app in
      if \<not> direct_sampling_enabled app \<and> captured privdata = Null then
        Inr (app, hw\<lparr>canvas := canvas hw @ help_text\<rparr>)
      else
        (case alloc_captured privdata hw of
           Null \<Rightarrow> Inl NullDeref
         | Freed \<Rightarrow> Inl UseAfterFree
         | Live b0 \<Rightarrow>
             (let (b, hw1) = (if direct_sampling_enabled app
                              then sampling_loop (usec_per_pixel privdata) 0 b0 hw
                              else (b0, hw));
                  hw2 = hw1\<lparr>canvas := canvas hw1 @ draw_dots b @
                                [DrawUsecLabel (usec_per_pixel privdata)]\<rparr>
              in Inr (app\<lparr>view_privdata := privdata\<lparr>captured := Live b\<rparr>\<rparr>, hw2))))"

definition process_input_direct_sampling ::
  "DirectSamplingViewPrivData ProtoViewApp \<Rightarrow> InputEvent \<Rightarrow>
     DirectSamplingViewPrivData ProtoViewApp" where
  "process_input_direct_sampling app input =
     (let app1 = (if input_type input = InputTypePress \<and> input_key input = InputKeyOk
                  then app\<lparr>direct_sampling_enabled := \<not> direct_sampling_enabled app\<rparr>
                  else app);
          privdata = view_privdata app1
      in
      if (input_key input = InputKeyUp \<or> input_key input = InputKeyDown) \<and>
         (input_type input = InputTypePress \<or> input_type input = InputTypeRepeat)
      then
        (let change0 = (if input_type input = InputTypePress
                        then USEC_PER_PIXEL_SMALL_CHANGE else USEC_PER_PIXEL_LARGE_CHANGE);
             change = (if input_key input = InputKeyUp then - change0 else change0);
             u = usec_per_pixel privdata + change;
             u1 = (if u < USEC_PER_PIXEL_MIN then USEC_PER_PIXEL_MIN
                   else if u > USEC_PER_PIXEL_MAX then USEC_PER_PIXEL_MAX
                   else u)
         in app1\<lparr>view_privdata := privdata\<lparr>usec_per_pixel := u1\<rparr>\<rparr>)
      else app1)"

definition rx_async :: "'p ProtoViewApp \<Rightarrow> bool" where
  "rx_async app = (txrx_state (txrx app) = TxRxStateRx \<and> \<not> debug_timer_sampling (txrx app))"

definition view_enter_direct_sampling ::
  "DirectSamplingViewPrivData ProtoViewApp \<Rightarrow> Hardware \<Rightarrow>
     DirectSamplingViewPrivData ProtoViewApp \<times> Hardware" where
  "view_enter_direct_sampling app hw =
     (let privdata = view_privdata app;
          app1 = app\<lparr>view_privdata := privdata\<lparr>usec_per_pixel := DEFAULT_USEC_PER_PIXEL\<rparr>\<rparr>
      in
      if txrx_state (txrx app1) = TxRxStateRx \<and> \<not> debug_timer_sampling (txrx app1)
      then (app1, hal GpioInitInput (hal SubghzRx (hal StopAsyncRx hw)))
      else (app1, hal RawSamplingWorkerStop hw))"

definition view_exit_direct_sampling ::
  "DirectSamplingViewPrivData ProtoViewApp \<Rightarrow> Hardware \<Rightarrow>
     fault + (DirectSamplingViewPrivData ProtoViewApp \<times> Hardware)" where
  "view_exit_direct_sampling app hw =
     (let privdata = view_privdata app in
      case (case captured privdata of
              Null \<Rightarrow> Inr Null
            | Live b \<Rightarrow> Inr Freed
            | Freed \<Rightarrow> Inl DoubleFree) of
        Inl e \<Rightarrow> Inl e
      | Inr p \<Rightarrow>
          (let app1 = app\<lparr>view_privdata := privdata\<lparr>captured := p\<rparr>,
                          direct_sampling_enabled := False\<rparr>
           in
           if txrx_state (txrx app1) = TxRxStateRx \<and> \<not> debug_timer_sampling (txrx app1)
           then Inr (app1, hal StartAsyncRx hw)
           else Inr (app1, hal RawSamplingWorkerStart hw)))"


section \<open>The message builder view\<close>

text \<open>
  A field set is the ordered sequence of its fields (\<open>numfields\<close> is its length); the
  structure of a field is not used by the view, so it is a type parameter.

  Modelled from the spec: \<open>fieldset_new\<close> is defined in a file of the application that is
  not among the sources; by the specification, \<open>new()\<close> returns the empty field set.
\<close>

definition fieldset_new :: "'f list" where
  "fieldset_new = []"

text \<open>
  A decoder, with the two members the view uses: its name and the optional
  \<open>get_fields\<close> function pointer (\<open>None\<close> is \<open>NULL\<close>), which fills the field set it is
  given.
\<close>

record 'f ProtoViewDecoder =
  name :: string
  get_fields :: "('f list \<Rightarrow> 'f list) option"

record 'f BuildViewPrivData =
  decoder :: "'f ProtoViewDecoder option"
  cur_decoder :: nat
  fieldset :: "'f list option"
  cur_field :: nat

text \<open>
  The registry \<open>Decoders[]\<close> is a null-terminated array of decoder pointers. It is given
  by the list \<open>reg\<close> of its decoders: index \<open>length reg\<close> holds the terminating \<open>NULL\<close>, and
  a read beyond it is outside the array.
\<close>

definition Decoders :: "'f ProtoViewDecoder list \<Rightarrow> nat \<Rightarrow> fault + 'f ProtoViewDecoder option" where
  "Decoders reg i =
     (if i < length reg then Inr (Some (reg ! i))
      else if i = length reg then Inr None
      else Inl OutOfBounds)"

text \<open>The loop test \<open>Decoders[cur]->get_fields == NULL\<close>.\<close>

definition lacks_get_fields :: "'f ProtoViewDecoder list \<Rightarrow> nat \<Rightarrow> fault + bool" where
  "lacks_get_fields reg i =
     (case Decoders reg i of
        Inl e \<Rightarrow> Inl e
      | Inr None \<Rightarrow> Inl NullDeref
      | Inr (Some d) \<Rightarrow> Inr (get_fields d = None))"

text \<open>
  \<open>cur_decoder\<close> is a \<open>uint32_t\<close>: the increment and the decrement wrap modulo \<open>2 ^ 32\<close>.
  The loops act on the index alone; a loop that does not return has the value \<open>None\<close>.
\<close>

partial_function (option) select_next_loop ::
  "'f ProtoViewDecoder list \<Rightarrow> nat \<Rightarrow> (fault + nat) option" where
  "select_next_loop reg cur =
     (let cur1 = (cur + 1) mod 2 ^ 32 in
      case Decoders reg cur1 of
        Inl e \<Rightarrow> Some (Inl e)
      | Inr p \<Rightarrow>
          (let cur2 = (if p = None then 0 else cur1) in
           case lacks_get_fields reg cur2 of
             Inl e \<Rightarrow> Some (Inl e)
           | Inr again \<Rightarrow> if again then select_next_loop reg cur2 else Some (Inr cur2)))"

text \<open>The inner loop \<open>while(Decoders[cur]) cur++\<close> of the backward traversal.\<close>

partial_function (option) seek_terminator ::
  "'f ProtoViewDecoder list \<Rightarrow> nat \<Rightarrow> (fault + nat) option" where
  "seek_terminator reg cur =
     (case Decoders reg cur of
        Inl e \<Rightarrow> Some (Inl e)
      | Inr None \<Rightarrow> Some (Inr cur)
      | Inr (Some d) \<Rightarrow> seek_terminator reg ((cur + 1) mod 2 ^ 32))"

partial_function (option) select_prev_loop ::
  "'f ProtoViewDecoder list \<Rightarrow> nat \<Rightarrow> (fault + nat) option" where
  "select_prev_loop reg cur =
     (case (if cur = 0 then seek_terminator reg cur else Some (Inr cur)) of
        None \<Rightarrow> None
      | Some (Inl e) \<Rightarrow> Some (Inl e)
      | Some (Inr cur1) \<Rightarrow>
          (let cur2 = (cur1 + 2 ^ 32 - 1) mod 2 ^ 32 in
           case lacks_get_fields reg cur2 of
             Inl e \<Rightarrow> Some (Inl e)
           | Inr again \<Rightarrow> if again then select_prev_loop reg cur2 else Some (Inr cur2)))"

text \<open>
  The two traversals on the application object: the loop's result is stored in
  \<open>cur_decoder\<close>.
\<close>

definition store_cur_decoder ::
  "'f BuildViewPrivData ProtoViewApp \<Rightarrow> (fault + nat) option \<Rightarrow>
     (fault + 'f BuildViewPrivData ProtoViewApp) option" where
  "store_cur_decoder app r =
     (case r of
        None \<Rightarrow> None
      | Some (Inl e) \<Rightarrow> Some (Inl e)
      | Some (Inr i) \<Rightarrow> Some (Inr (app\<lparr>view_privdata := (view_privdata app)\<lparr>cur_decoder := i\<rparr>\<rparr>)))"

definition select_next_decoder ::
  "'f ProtoViewDecoder list \<Rightarrow> 'f BuildViewPrivData ProtoViewApp \<Rightarrow>
     (fault + 'f BuildViewPrivData ProtoViewApp) option" where
  "select_next_decoder reg app =
     store_cur_decoder app (select_next_loop reg (cur_decoder (view_privdata app)))"

definition select_prev_decoder ::
  "'f ProtoViewDecoder list \<Rightarrow> 'f BuildViewPrivData ProtoViewApp \<Rightarrow>
     (fault + 'f BuildViewPrivData ProtoViewApp) option" where
  "select_prev_decoder reg app =
     store_cur_decoder app (select_prev_loop reg (cur_decoder (view_privdata app)))"

definition process_input_select_decoder ::
  "'f ProtoViewDecoder list \<Rightarrow> 'f BuildViewPrivData ProtoViewApp \<Rightarrow> InputEvent \<Rightarrow>
     (fault + 'f BuildViewPrivData ProtoViewApp) option" where
  "process_input_select_decoder reg app input =
     (let privdata = view_privdata app in
      if input_type input = InputTypeShort then
        (if input_key input = InputKeyOk then
           (case Decoders reg (cur_decoder privdata) of
              Inl e \<Rightarrow> Some (Inl e)
            | Inr None \<Rightarrow> Some (Inl NullDeref)
            | Inr (Some d) \<Rightarrow>
                (case get_fields d of
                   None \<Rightarrow> Some (Inl NullDeref)
                 | Some gf \<Rightarrow>
                     Some (Inr (app\<lparr>view_privdata :=
                       privdata\<lparr>decoder := Some d, fieldset := Some (gf fieldset_new)\<rparr>\<rparr>))))
         else if input_key input = InputKeyDown then select_next_decoder reg app
         else if input_key input = InputKeyUp then select_prev_decoder reg app
         else Some (Inr app))
      else Some (Inr app))"

text \<open>The body of \<open>process_input_set_fields\<close> is \<open>UNUSED(app); UNUSED(input);\<close>.\<close>

definition process_input_set_fields ::
  "'f BuildViewPrivData ProtoViewApp \<Rightarrow> InputEvent \<Rightarrow> 'f BuildViewPrivData ProtoViewApp" where
  "process_input_set_fields app input = app"

definition process_input_build_message ::
  "'f ProtoViewDecoder list \<Rightarrow> 'f BuildViewPrivData ProtoViewApp \<Rightarrow> InputEvent \<Rightarrow>
     (fault + 'f BuildViewPrivData ProtoViewApp) option" where
  "process_input_build_message reg app input =
     (if decoder (view_privdata app) \<noteq> None
      then Some (Inr (process_input_set_fields app input))
      else process_input_select_decoder reg app input)"

section \<open>Runs of the direct-sampling view\<close>

text \<open>Input events handled one after the other, in order.\<close>

definition run_inputs ::
  "DirectSamplingViewPrivData ProtoViewApp \<Rightarrow> InputEvent list \<Rightarrow>
     DirectSamplingViewPrivData ProtoViewApp" where
  "run_inputs app evs = foldl process_input_direct_sampling app evs"

definition up_press :: InputEvent where
  "up_press = \<lparr>input_key = InputKeyUp, input_type = InputTypePress\<rparr>"

definition up_repeat :: InputEvent where
  "up_repeat = \<lparr>input_key = InputKeyUp, input_type = InputTypeRepeat\<rparr>"


text \<open>The clamping of the handler, and its range, as used in the proofs.\<close>

definition clamp_usec :: "32 word \<Rightarrow> 32 word" where
  "clamp_usec u =
     (if u < USEC_PER_PIXEL_MIN then USEC_PER_PIXEL_MIN
      else if u > USEC_PER_PIXEL_MAX then USEC_PER_PIXEL_MAX
      else u)"

definition usec_in_range :: "DirectSamplingViewPrivData ProtoViewApp \<Rightarrow> bool" where
  "usec_in_range app =
     (USEC_PER_PIXEL_MIN \<le> usec_per_pixel (view_privdata app) \<and>
      usec_per_pixel (view_privdata app) \<le> USEC_PER_PIXEL_MAX)"

text \<open>
  A stay in the view: the view is entered, rendering passes and input events follow in
  any order, and the view is left. A fault ends the run.
\<close>

datatype view_event = Render | Input InputEvent

fun run_view ::
  "DirectSamplingViewPrivData ProtoViewApp \<Rightarrow> Hardware \<Rightarrow> view_event list \<Rightarrow>
     fault + (DirectSamplingViewPrivData ProtoViewApp \<times> Hardware)" where
  "run_view app hw [] = Inr (app, hw)"
| "run_view app hw (Render # es) =
     (case render_view_direct_sampling app hw of
        Inl e \<Rightarrow> Inl e
      | Inr (app1, hw1) \<Rightarrow> run_view app1 hw1 es)"
| "run_view app hw (Input input # es) =
     run_view (process_input_direct_sampling app input) hw es"

definition view_session ::
  "DirectSamplingViewPrivData ProtoViewApp \<Rightarrow> Hardware \<Rightarrow> view_event list \<Rightarrow>
     fault + (DirectSamplingViewPrivData ProtoViewApp \<times> Hardware)" where
  "view_session app hw es =
     (let (app1, hw1) = view_enter_direct_sampling app hw in
      case run_view app1 hw1 es of
        Inl e \<Rightarrow> Inl e
      | Inr (app2, hw2) \<Rightarrow> view_exit_direct_sampling app2 hw2)"



text \<open>
  A concrete application state and environment: no buffer yet, sampling enabled, the
  radio in asynchronous reception; a line that alternates between the levels, and an
  allocator whose blocks hold the byte \<open>0xFF\<close>.
\<close>

definition app0 :: "DirectSamplingViewPrivData ProtoViewApp" where
  "app0 = \<lparr>view_privdata = \<lparr>captured = Null, usec_per_pixel = 50\<rparr>,
           direct_sampling_enabled = True,
           txrx = \<lparr>txrx_state = TxRxStateRx, debug_timer_sampling = False\<rparr>\<rparr>"


definition hw0 :: Hardware where
  "hw0 = \<lparr>hal_calls = [], gpio_level = (\<lambda>k. even k), gpio_reads = 0,
          heap_bytes = (\<lambda>k. 255), instructions_per_microsecond = 64,
          waited = [], canvas = []\<rparr>"


section \<open>Traversal of the registry\<close>

text \<open>
  A registry index is capable when it lies within the registry and its decoder has a
  \<open>get_fields\<close> function; \<open>capable_indices\<close> lists the capable indices in increasing
  order.
\<close>

definition capable :: "'f ProtoViewDecoder list \<Rightarrow> nat \<Rightarrow> bool" where
  "capable reg i = (i < length reg \<and> get_fields (reg ! i) \<noteq> None)"

definition capable_indices :: "'f ProtoViewDecoder list \<Rightarrow> nat list" where
  "capable_indices reg = filter (capable reg) [0..<length reg]"

text \<open>\<open>select_next_decoder\<close> called \<open>k\<close> times in a row; a fault or a call that does not
  return ends the sequence.\<close>

fun select_next_times ::
  "'f ProtoViewDecoder list \<Rightarrow> nat \<Rightarrow> 'f BuildViewPrivData ProtoViewApp \<Rightarrow>
     (fault + 'f BuildViewPrivData ProtoViewApp) option" where
  "select_next_times reg 0 app = Some (Inr app)"
| "select_next_times reg (Suc k) app =
     (case select_next_decoder reg app of
        Some (Inr app1) \<Rightarrow> select_next_times reg k app1
      | r \<Rightarrow> r)"

text \<open>The application object with \<open>cur_decoder\<close> set to a given index.\<close>

definition set_cur_decoder ::
  "'f BuildViewPrivData ProtoViewApp \<Rightarrow> nat \<Rightarrow> 'f BuildViewPrivData ProtoViewApp" where
  "set_cur_decoder app i = app\<lparr>view_privdata := (view_privdata app)\<lparr>cur_decoder := i\<rparr>\<rparr>"

text \<open>
  A concrete registry of three decoders, the second without \<open>get_fields\<close>, and builder
  states: selecting with the browsed index \<open>i\<close>, and editing the fields of the first
  decoder.
\<close>

definition decoder_a :: "nat ProtoViewDecoder" where
  "decoder_a = \<lparr>name = ''A'', get_fields = Some (\<lambda>fs. fs @ [1, 2])\<rparr>"

definition decoder_b :: "nat ProtoViewDecoder" where
  "decoder_b = \<lparr>name = ''B'', get_fields = None\<rparr>"

definition decoder_c :: "nat ProtoViewDecoder" where
  "decoder_c = \<lparr>name = ''C'', get_fields = Some (\<lambda>fs. fs @ [7])\<rparr>"

definition reg3 :: "nat ProtoViewDecoder list" where
  "reg3 = [decoder_a, decoder_b, decoder_c]"

definition build_app :: "nat \<Rightarrow> nat BuildViewPrivData ProtoViewApp" where
  "build_app i =
     \<lparr>view_privdata = \<lparr>decoder = None, cur_decoder = i, fieldset = None, cur_field = 0\<rparr>,
      direct_sampling_enabled = False,
      txrx = \<lparr>txrx_state = TxRxStateRx, debug_timer_sampling = False\<rparr>\<rparr>"

definition editing_app :: "nat BuildViewPrivData ProtoViewApp" where
  "editing_app =
     \<lparr>view_privdata = \<lparr>decoder = Some decoder_a, cur_decoder = 0, fieldset = Some [1, 2],
        cur_field = 0\<rparr>,
      direct_sampling_enabled = False,
      txrx = \<lparr>txrx_state = TxRxStateRx, debug_timer_sampling = False\<rparr>\<rparr>"

section \<open>Properties of the bit sample buffer\<close>

lemma length_bitmap_set: "length (bitmap_set b blen bitpos val) = length b"
  by (simp add: bitmap_set_def Let_def)

lemma bitmap_get_set_same:
  assumes "i < length b * 8"
  shows "bitmap_get (bitmap_set b (length b) i v) (length b) i = v"
proof -
  from assms have byte: "i div 8 < length b" by (simp add: less_mult_imp_div_less)
  have off: "i mod 8 < LENGTH(8)" by simp
  show ?thesis
    using byte off
    by (simp add: bitmap_get_def bitmap_set_def Let_def bit_set_bit_iff bit_unset_bit_iff
        possible_bit_word)
qed

lemma bitmap_get_set_other:
  assumes "j \<noteq> i"
  shows "bitmap_get (bitmap_set b (length b) i v) (length b) j = bitmap_get b (length b) j"
proof (cases "i div 8 < length b")
  case False
  then show ?thesis by (simp add: bitmap_set_def Let_def)
next
  case inb: True
  show ?thesis
  proof (cases "j div 8 = i div 8")
    case True
    with assms have "j mod 8 \<noteq> i mod 8"
      by (metis div_mult_mod_eq)
    with True inb show ?thesis
      by (simp add: bitmap_get_def bitmap_set_def Let_def bit_set_bit_iff bit_unset_bit_iff)
  next
    case False
    then show ?thesis
      by (simp add: bitmap_get_def bitmap_set_def Let_def)
  qed
qed



text \<open>
  Claim C1. For every valid bit index \<open>i\<close> (below eight times the byte capacity of the
  buffer) and every level \<open>v\<close>: reading bit \<open>i\<close> after writing \<open>v\<close> to bit \<open>i\<close> returns
  \<open>v\<close>; every other bit reads as it did before the write; and the capacity is unchanged.
\<close>

theorem bitmap_set_get_roundtrip:
  assumes "i < length buf * 8"
  shows "bitmap_get (bitmap_set buf (length buf) i v) (length buf) i = v \<and>
         (\<forall>j. j \<noteq> i \<longrightarrow>
            bitmap_get (bitmap_set buf (length buf) i v) (length buf) j =
            bitmap_get buf (length buf) j) \<and>
         length (bitmap_set buf (length buf) i v) = length buf"
  using assms
  by (simp add: bitmap_get_set_same bitmap_get_set_other length_bitmap_set)

theorem bitmap_set_get_roundtrip_witness:
  "(9::nat) < length [0, 0 :: 8 word] * 8 \<and>
   bitmap_get (bitmap_set [0, 0] (length [0, 0 :: 8 word]) 9 True) (length [0, 0 :: 8 word]) 9 = True \<and>
   bitmap_get (bitmap_set [0, 0] (length [0, 0 :: 8 word]) 9 True) (length [0, 0 :: 8 word]) 3 =
     bitmap_get [0, 0] (length [0, 0 :: 8 word]) 3"
proof -
  have h: "(9::nat) < length [0, 0 :: 8 word] * 8" by simp
  from bitmap_set_get_roundtrip [OF h, of True] show ?thesis
    using h by simp
qed

section \<open>The pacing parameter\<close>

lemma min_le_max: "USEC_PER_PIXEL_MIN \<le> USEC_PER_PIXEL_MAX"
  by (simp add: USEC_PER_PIXEL_MIN_def USEC_PER_PIXEL_MAX_def)

lemma clamp_in_range:
  "USEC_PER_PIXEL_MIN \<le> clamp_usec u \<and> clamp_usec u \<le> USEC_PER_PIXEL_MAX"
  using min_le_max by (auto simp add: clamp_usec_def)

text \<open>What the handler does to \<open>usec_per_pixel\<close>, in one equation.\<close>

lemma process_input_usec:
  "usec_per_pixel (view_privdata (process_input_direct_sampling app input)) =
     (if (input_key input = InputKeyUp \<or> input_key input = InputKeyDown) \<and>
         (input_type input = InputTypePress \<or> input_type input = InputTypeRepeat)
      then clamp_usec (usec_per_pixel (view_privdata app) +
             (if input_key input = InputKeyUp then - 1 else 1) *
             (if input_type input = InputTypePress then USEC_PER_PIXEL_SMALL_CHANGE
              else USEC_PER_PIXEL_LARGE_CHANGE))
      else usec_per_pixel (view_privdata app))"
  by (simp add: process_input_direct_sampling_def clamp_usec_def Let_def)

lemma process_input_keeps_range:
  assumes "usec_in_range app"
  shows "usec_in_range (process_input_direct_sampling app input)"
  using assms clamp_in_range
  by (simp add: usec_in_range_def process_input_usec)

lemma run_inputs_keeps_range:
  "usec_in_range app \<Longrightarrow> usec_in_range (run_inputs app evs)"
  unfolding run_inputs_def
  by (induction evs arbitrary: app) (simp_all add: process_input_keeps_range)

lemma enter_in_range: "usec_in_range (fst (view_enter_direct_sampling app hw))"
  by (simp add: view_enter_direct_sampling_def usec_in_range_def Let_def
      DEFAULT_USEC_PER_PIXEL_def USEC_PER_PIXEL_MIN_def USEC_PER_PIXEL_MAX_def)

lemma enter_usec:
  "usec_per_pixel (view_privdata (fst (view_enter_direct_sampling app hw))) = 50"
  by (simp add: view_enter_direct_sampling_def Let_def DEFAULT_USEC_PER_PIXEL_def)

text \<open>
  Claim C2. Entering the view sets \<open>usec_per_pixel\<close> to 50, and after every sequence of
  input events handled by \<open>process_input_direct_sampling\<close> (up or down, press or repeat,
  or any other event) its value lies between 5 and 300.
\<close>

theorem usec_per_pixel_bounded:
  "usec_per_pixel (view_privdata (fst (view_enter_direct_sampling app hw))) = 50 \<and>
   5 \<le> usec_per_pixel (view_privdata
          (run_inputs (fst (view_enter_direct_sampling app hw)) evs)) \<and>
   usec_per_pixel (view_privdata
          (run_inputs (fst (view_enter_direct_sampling app hw)) evs)) \<le> 300"
  using run_inputs_keeps_range [OF enter_in_range, of app hw evs] enter_usec [of app hw]
  by (simp add: usec_in_range_def USEC_PER_PIXEL_MIN_def USEC_PER_PIXEL_MAX_def)

text \<open>
  A discrete press of up lowers a value of at least 10 by exactly the small step; a
  repeated press of up at 20 wraps below zero in the unsigned addition and is then clamped
  to the upper bound.
\<close>

lemma up_press_step:
  "usec_per_pixel (view_privdata app) = u \<Longrightarrow> 10 \<le> u \<Longrightarrow> u \<le> 300 \<Longrightarrow>
   usec_per_pixel (view_privdata (process_input_direct_sampling app
      \<lparr>input_key = InputKeyUp, input_type = InputTypePress\<rparr>)) = u - 5"
  apply (simp add: process_input_usec clamp_usec_def USEC_PER_PIXEL_MIN_def
      USEC_PER_PIXEL_MAX_def USEC_PER_PIXEL_LARGE_CHANGE_def USEC_PER_PIXEL_SMALL_CHANGE_def)
  apply unat_arith
  done

lemma up_repeat_wraps:
  "usec_per_pixel (view_privdata app) = 20 \<Longrightarrow>
   usec_per_pixel (view_privdata (process_input_direct_sampling app
      \<lparr>input_key = InputKeyUp, input_type = InputTypeRepeat\<rparr>)) = 300"
  by (simp add: process_input_usec clamp_usec_def USEC_PER_PIXEL_MIN_def
      USEC_PER_PIXEL_MAX_def USEC_PER_PIXEL_LARGE_CHANGE_def USEC_PER_PIXEL_SMALL_CHANGE_def)

text \<open>
  Claim C3. The code at the failing input: from the default 50, six discrete presses of up
  lower the value by 5 each, to 20; a repeated press of up then yields 300, not the value
  lowered by the large step and clamped at the lower bound (5).
\<close>

theorem repeated_up_at_20_yields_300:
  "usec_per_pixel (view_privdata (run_inputs (fst (view_enter_direct_sampling app hw))
      [up_press, up_press, up_press, up_press, up_press, up_press])) = 20 \<and>
   usec_per_pixel (view_privdata (run_inputs (fst (view_enter_direct_sampling app hw))
      [up_press, up_press, up_press, up_press, up_press, up_press, up_repeat])) = 300"
proof -
  let ?s0 = "fst (view_enter_direct_sampling app hw)"
  let ?p = "\<lambda>s. process_input_direct_sampling s up_press"
  have u0: "usec_per_pixel (view_privdata ?s0) = 50"
    by (rule enter_usec)
  have u1: "usec_per_pixel (view_privdata (?p ?s0)) = 45"
    unfolding up_press_def using up_press_step [OF u0] by simp
  have u2: "usec_per_pixel (view_privdata (?p (?p ?s0))) = 40"
    unfolding up_press_def using up_press_step [OF u1 [unfolded up_press_def]] by simp
  have u3: "usec_per_pixel (view_privdata (?p (?p (?p ?s0)))) = 35"
    unfolding up_press_def using up_press_step [OF u2 [unfolded up_press_def]] by simp
  have u4: "usec_per_pixel (view_privdata (?p (?p (?p (?p ?s0))))) = 30"
    unfolding up_press_def using up_press_step [OF u3 [unfolded up_press_def]] by simp
  have u5: "usec_per_pixel (view_privdata (?p (?p (?p (?p (?p ?s0)))))) = 25"
    unfolding up_press_def using up_press_step [OF u4 [unfolded up_press_def]] by simp
  have u6: "usec_per_pixel (view_privdata (?p (?p (?p (?p (?p (?p ?s0))))))) = 20"
    unfolding up_press_def using up_press_step [OF u5 [unfolded up_press_def]] by simp
  have u7: "usec_per_pixel (view_privdata (process_input_direct_sampling
          (?p (?p (?p (?p (?p (?p ?s0)))))) up_repeat)) = 300"
    unfolding up_repeat_def up_press_def
    using up_repeat_wraps [OF u6 [unfolded up_press_def]] by simp
  from u6 u7 show ?thesis by (simp add: run_inputs_def)
qed

section \<open>The sampling pass\<close>

text \<open>
  The loop, unfolded once: it stops at \<open>j = 8192\<close>, and below that bound it reads the
  line, stores the level at bit \<open>j\<close>, waits and goes on with \<open>j + 1\<close>.
\<close>

lemma sampling_loop_stop:
  "8192 \<le> j \<Longrightarrow> sampling_loop usec j b hw = (b, hw)"
  by (subst sampling_loop.simps) simp

lemma sampling_loop_step:
  "j < 8192 \<Longrightarrow>
   sampling_loop usec j b hw =
     sampling_loop usec (Suc j)
       (bitmap_set b CAPTURED_BITMAP_SIZE j (gpio_level hw (gpio_reads hw)))
       (busy_wait (instructions_per_microsecond hw * usec)
          (hw\<lparr>gpio_reads := Suc (gpio_reads hw)\<rparr>))"
  by (subst sampling_loop.simps) (simp add: furi_hal_gpio_read_def)

lemma sampling_loop_hw:
  "snd (sampling_loop usec j b hw) =
     hw\<lparr>gpio_reads := gpio_reads hw + (8192 - j),
        waited := waited hw @ replicate (8192 - j) (instructions_per_microsecond hw * usec)\<rparr>"
proof (induction "8192 - j" arbitrary: j b hw)
  case 0
  then show ?case by (simp add: sampling_loop_stop)
next
  case (Suc k)
  then have lt: "j < 8192" and k: "k = 8192 - Suc j" by simp_all
  have d: "8192 - j = Suc (8192 - Suc j)" using lt by simp
  show ?case
    unfolding sampling_loop_step [OF lt] Suc.hyps(1) [OF k] d
    by (simp add: busy_wait_def replicate_append_same)
qed

lemma sampling_loop_length:
  "length (fst (sampling_loop usec j b hw)) = length b"
proof (induction "8192 - j" arbitrary: j b hw)
  case 0
  then show ?case by (simp add: sampling_loop_stop)
next
  case (Suc k)
  then have lt: "j < 8192" and k: "k = 8192 - Suc j" by simp_all
  show ?case
    unfolding sampling_loop_step [OF lt] Suc.hyps(1) [OF k]
    by (simp add: length_bitmap_set)
qed

lemma sampling_loop_bits:
  "length b = CAPTURED_BITMAP_SIZE \<Longrightarrow>
   bitmap_get (fst (sampling_loop usec j b hw)) CAPTURED_BITMAP_SIZE i =
     (if j \<le> i \<and> i < 8192 then gpio_level hw (gpio_reads hw + (i - j))
      else bitmap_get b CAPTURED_BITMAP_SIZE i)"
proof (induction "8192 - j" arbitrary: j b hw)
  case 0
  then show ?case by (auto simp add: sampling_loop_stop)
next
  case (Suc k)
  then have lt: "j < 8192" and k: "k = 8192 - Suc j" by simp_all
  let ?level = "gpio_level hw (gpio_reads hw)"
  let ?b1 = "bitmap_set b CAPTURED_BITMAP_SIZE j ?level"
  have len1: "length ?b1 = CAPTURED_BITMAP_SIZE"
    using Suc.prems by (simp add: length_bitmap_set)
  have jin: "j < length b * 8"
    using lt Suc.prems by (simp add: CAPTURED_BITMAP_SIZE_def)
  have same: "bitmap_get ?b1 CAPTURED_BITMAP_SIZE j = ?level"
    using bitmap_get_set_same [OF jin, of ?level] Suc.prems by simp
  have other: "i \<noteq> j \<Longrightarrow>
      bitmap_get ?b1 CAPTURED_BITMAP_SIZE i = bitmap_get b CAPTURED_BITMAP_SIZE i"
    using bitmap_get_set_other [of i j b ?level] Suc.prems by simp
  show ?case
  proof (cases "i = j")
    case True
    then show ?thesis
      unfolding sampling_loop_step [OF lt] Suc.hyps(1) [OF k len1]
      using lt by (simp add: same busy_wait_def)
  next
    case False
    then show ?thesis
      unfolding sampling_loop_step [OF lt] Suc.hyps(1) [OF k len1]
      using lt by (auto simp add: other busy_wait_def Suc_diff_Suc)
  qed
qed

lemma render_enabled:
  assumes en: "direct_sampling_enabled app"
    and nf: "captured (view_privdata app) \<noteq> Freed"
    and len: "\<forall>b. captured (view_privdata app) = Live b \<longrightarrow> length b = CAPTURED_BITMAP_SIZE"
  shows "\<exists>b0. alloc_captured (view_privdata app) hw = Live b0 \<and> length b0 = CAPTURED_BITMAP_SIZE \<and>
    render_view_direct_sampling app hw =
      Inr (app\<lparr>view_privdata := (view_privdata app)\<lparr>captured :=
               Live (fst (sampling_loop (usec_per_pixel (view_privdata app)) 0 b0 hw))\<rparr>\<rparr>,
           (snd (sampling_loop (usec_per_pixel (view_privdata app)) 0 b0 hw))
             \<lparr>canvas := canvas hw @
                draw_dots (fst (sampling_loop (usec_per_pixel (view_privdata app)) 0 b0 hw)) @
                [DrawUsecLabel (usec_per_pixel (view_privdata app))]\<rparr>)"
proof (cases "captured (view_privdata app)")
  case Null
  then show ?thesis
    using en
    by (simp add: render_view_direct_sampling_def alloc_captured_def malloc_def Let_def
        split_beta sampling_loop_hw)
next
  case (Live b)
  then show ?thesis
    using en len
    by (simp add: render_view_direct_sampling_def alloc_captured_def Let_def
        split_beta sampling_loop_hw)
next
  case Freed
  with nf show ?thesis by simp
qed

text \<open>
  Claim C8. With direct sampling enabled (and a capture pointer that is \<open>NULL\<close> or a live
  block of \<open>CAPTURED_BITMAP_SIZE = 1024\<close> bytes), one rendering pass returns without a
  fault; it reads the line exactly 8192 times and waits 8192 times, each time for
  \<open>instructions_per_microsecond * usec_per_pixel\<close> cycles; the level of the \<open>i\<close>-th read
  is stored at bit \<open>i\<close>, so that afterwards every bit index below 8192 of the capture
  buffer holds a sampled level.
\<close>

theorem sampling_pass_fills_buffer:
  assumes "direct_sampling_enabled app"
    and "captured (view_privdata app) \<noteq> Freed"
    and "\<forall>b. captured (view_privdata app) = Live b \<longrightarrow> length b = CAPTURED_BITMAP_SIZE"
  shows "CAPTURED_BITMAP_SIZE = 1024 \<and>
    (\<exists>app' hw' b'.
       render_view_direct_sampling app hw = Inr (app', hw') \<and>
       captured (view_privdata app') = Live b' \<and>
       length b' = 1024 \<and>
       (\<forall>i<8192. bitmap_get b' CAPTURED_BITMAP_SIZE i = gpio_level hw (gpio_reads hw + i)) \<and>
       gpio_reads hw' = gpio_reads hw + 8192 \<and>
       waited hw' = waited hw @
         replicate 8192 (instructions_per_microsecond hw * usec_per_pixel (view_privdata app)))"
proof -
  from render_enabled [OF assms, of hw] obtain b0 where
    len0: "length b0 = CAPTURED_BITMAP_SIZE" and
    r: "render_view_direct_sampling app hw =
      Inr (app\<lparr>view_privdata := (view_privdata app)\<lparr>captured :=
               Live (fst (sampling_loop (usec_per_pixel (view_privdata app)) 0 b0 hw))\<rparr>\<rparr>,
           (snd (sampling_loop (usec_per_pixel (view_privdata app)) 0 b0 hw))
             \<lparr>canvas := canvas hw @
                draw_dots (fst (sampling_loop (usec_per_pixel (view_privdata app)) 0 b0 hw)) @
                [DrawUsecLabel (usec_per_pixel (view_privdata app))]\<rparr>)"
    by blast
  let ?b = "fst (sampling_loop (usec_per_pixel (view_privdata app)) 0 b0 hw)"
  have size: "CAPTURED_BITMAP_SIZE = 1024" by (simp add: CAPTURED_BITMAP_SIZE_def)
  have len: "length ?b = 1024"
    using len0 size by (simp add: sampling_loop_length)
  have bits: "\<forall>i<8192. bitmap_get ?b CAPTURED_BITMAP_SIZE i = gpio_level hw (gpio_reads hw + i)"
    by (simp add: sampling_loop_bits [OF len0])
  show ?thesis
    using size len bits by (simp add: r sampling_loop_hw)
qed

theorem sampling_pass_fills_buffer_witness:
  "direct_sampling_enabled app0 \<and> captured (view_privdata app0) = Null \<and>
   (\<exists>app' hw' b'.
       render_view_direct_sampling app0 hw0 = Inr (app', hw') \<and>
       captured (view_privdata app') = Live b' \<and>
       bitmap_get b' CAPTURED_BITMAP_SIZE 7 = False \<and>
       bitmap_get b' CAPTURED_BITMAP_SIZE 8 = True \<and>
       gpio_reads hw' = 8192)"
proof -
  have h1: "direct_sampling_enabled app0" by (simp add: app0_def)
  have h2: "captured (view_privdata app0) \<noteq> Freed" by (simp add: app0_def)
  have h3: "\<forall>b. captured (view_privdata app0) = Live b \<longrightarrow> length b = CAPTURED_BITMAP_SIZE"
    by (simp add: app0_def)
  from sampling_pass_fills_buffer [OF h1 h2 h3, of hw0] obtain app' hw' b' where
    r: "render_view_direct_sampling app0 hw0 = Inr (app', hw')"
      "captured (view_privdata app') = Live b'"
      "\<forall>i<8192. bitmap_get b' CAPTURED_BITMAP_SIZE i = gpio_level hw0 (gpio_reads hw0 + i)"
      "gpio_reads hw' = gpio_reads hw0 + 8192"
    by blast
  from r(3) have "bitmap_get b' CAPTURED_BITMAP_SIZE 7 = gpio_level hw0 (gpio_reads hw0 + 7)"
    by simp
  moreover from r(3) have "bitmap_get b' CAPTURED_BITMAP_SIZE 8 = gpio_level hw0 (gpio_reads hw0 + 8)"
    by simp
  ultimately show ?thesis
    using r(1,2,4) h1 by (simp add: hw0_def app0_def)
qed

section \<open>Release and allocation of the capture buffer\<close>








section \<open>Entering and leaving the view\<close>

text \<open>
  Neither a rendering pass nor an input event touches the radio state or the log of radio
  calls, and neither frees the buffer.
\<close>

lemma render_no_fault:
  assumes "captured (view_privdata app) \<noteq> Freed"
  shows "\<exists>app' hw'. render_view_direct_sampling app hw = Inr (app', hw') \<and>
     txrx app' = txrx app \<and> hal_calls hw' = hal_calls hw \<and>
     captured (view_privdata app') \<noteq> Freed"
proof (cases "captured (view_privdata app)")
  case Null
  then show ?thesis
    by (simp add: render_view_direct_sampling_def alloc_captured_def Let_def split_beta
        sampling_loop_hw)
next
  case (Live b)
  then show ?thesis
    by (simp add: render_view_direct_sampling_def alloc_captured_def Let_def split_beta
        sampling_loop_hw)
next
  case Freed
  with assms show ?thesis by simp
qed

lemma process_input_frame:
  "txrx (process_input_direct_sampling app input) = txrx app \<and>
   captured (view_privdata (process_input_direct_sampling app input)) =
     captured (view_privdata app)"
  by (simp add: process_input_direct_sampling_def Let_def)

lemma run_view_no_fault:
  "captured (view_privdata app) \<noteq> Freed \<Longrightarrow>
   \<exists>app' hw'. run_view app hw es = Inr (app', hw') \<and>
     txrx app' = txrx app \<and> hal_calls hw' = hal_calls hw \<and>
     captured (view_privdata app') \<noteq> Freed"
proof (induction es arbitrary: app hw)
  case Nil
  then show ?case by simp
next
  case (Cons e es)
  show ?case
  proof (cases e)
    case Render
    from render_no_fault [OF Cons.prems, of hw] obtain app1 hw1 where
      r: "render_view_direct_sampling app hw = Inr (app1, hw1)" "txrx app1 = txrx app"
         "hal_calls hw1 = hal_calls hw" "captured (view_privdata app1) \<noteq> Freed"
      by blast
    from Cons.IH [OF r(4), of hw1] show ?thesis
      using r(1,2,3) Render by simp
  next
    case (Input input)
    have "captured (view_privdata (process_input_direct_sampling app input)) \<noteq> Freed"
      using Cons.prems by (simp add: process_input_frame)
    from Cons.IH [OF this, of hw] show ?thesis
      using Input by (simp add: process_input_frame)
  qed
qed

text \<open>
  Claim C10. For every radio state before entry and every sequence of rendering passes
  and input events in the view (the capture pointer not being stale on entry), the stay
  ends without a fault and leaves the radio state as it was; entry stops asynchronous
  reception and puts the line into the polling configuration exactly when the radio state
  is \<open>Rx\<close> with debug timer sampling off, and otherwise stops the raw sampling worker;
  leaving restarts asynchronous reception in the first case and the raw sampling worker
  in the second, and makes no other radio call.
\<close>

theorem exit_restores_reception:
  assumes "captured (view_privdata app) \<noteq> Freed"
  shows "\<exists>app' hw'. view_session app hw es = Inr (app', hw') \<and>
     txrx app' = txrx app \<and>
     hal_calls (snd (view_enter_direct_sampling app hw)) = hal_calls hw @
       (if rx_async app then [StopAsyncRx, SubghzRx, GpioInitInput] else [RawSamplingWorkerStop]) \<and>
     hal_calls hw' = hal_calls (snd (view_enter_direct_sampling app hw)) @
       (if rx_async app then [StartAsyncRx] else [RawSamplingWorkerStart])"
proof -
  let ?app1 = "fst (view_enter_direct_sampling app hw)"
  let ?hw1 = "snd (view_enter_direct_sampling app hw)"
  have e1: "txrx ?app1 = txrx app" "captured (view_privdata ?app1) \<noteq> Freed"
    using assms by (simp_all add: view_enter_direct_sampling_def Let_def)
  have e2: "hal_calls ?hw1 = hal_calls hw @
       (if rx_async app then [StopAsyncRx, SubghzRx, GpioInitInput] else [RawSamplingWorkerStop])"
    by (simp add: view_enter_direct_sampling_def Let_def rx_async_def hal_def)
  from run_view_no_fault [OF e1(2), of ?hw1 es] obtain app2 hw2 where
    r: "run_view ?app1 ?hw1 es = Inr (app2, hw2)" "txrx app2 = txrx ?app1"
       "hal_calls hw2 = hal_calls ?hw1" "captured (view_privdata app2) \<noteq> Freed"
    by blast
  have x: "\<exists>app' hw'. view_exit_direct_sampling app2 hw2 = Inr (app', hw') \<and>
      txrx app' = txrx app2 \<and>
      hal_calls hw' = hal_calls hw2 @
        (if rx_async app2 then [StartAsyncRx] else [RawSamplingWorkerStart])"
    using r(4)
    by (cases "captured (view_privdata app2)")
       (simp_all add: view_exit_direct_sampling_def Let_def rx_async_def hal_def)
  have rx: "rx_async app2 = rx_async app"
    using r(2) e1(1) by (simp add: rx_async_def)
  have vs: "view_session app hw es = view_exit_direct_sampling app2 hw2"
    using r(1) by (simp add: view_session_def split_beta)
  show ?thesis
    using x e2 unfolding vs rx r(3) r(2) e1(1) by blast
qed

theorem exit_restores_reception_witness:
  "captured (view_privdata app0) \<noteq> Freed \<and>
   (\<exists>app' hw'. view_session app0 hw0 [Input up_press, Render, Input up_repeat] = Inr (app', hw') \<and>
      txrx app' = txrx app0 \<and>
      hal_calls hw' = [StopAsyncRx, SubghzRx, GpioInitInput, StartAsyncRx])"
proof -
  have h: "captured (view_privdata app0) \<noteq> Freed" by (simp add: app0_def)
  from exit_restores_reception [OF h, of hw0 "[Input up_press, Render, Input up_repeat]"]
  obtain app' hw' where
    r: "view_session app0 hw0 [Input up_press, Render, Input up_repeat] = Inr (app', hw')"
       "txrx app' = txrx app0"
       "hal_calls (snd (view_enter_direct_sampling app0 hw0)) = hal_calls hw0 @
          (if rx_async app0 then [StopAsyncRx, SubghzRx, GpioInitInput]
           else [RawSamplingWorkerStop])"
       "hal_calls hw' = hal_calls (snd (view_enter_direct_sampling app0 hw0)) @
          (if rx_async app0 then [StartAsyncRx] else [RawSamplingWorkerStart])"
    by blast
  have rx: "rx_async app0" by (simp add: rx_async_def app0_def)
  have "hal_calls hw' = [StopAsyncRx, SubghzRx, GpioInitInput, StartAsyncRx]"
    using r(3,4) rx by (simp add: hw0_def)
  with r(1,2) h show ?thesis by blast
qed

section \<open>The registry traversal\<close>

text \<open>
  One turn of each loop, for a registry that the 32-bit index can address: the forward
  loop moves to the next index, or to 0 from the last one; the backward loop moves to the
  index below, and from 0 first runs to the terminator.
\<close>

lemma Decoders_in: "i < length reg \<Longrightarrow> Decoders reg i = Inr (Some (reg ! i))"
  by (simp add: Decoders_def)

lemma Decoders_end: "Decoders reg (length reg) = Inr None"
  by (simp add: Decoders_def)

lemma lacks_in: "i < length reg \<Longrightarrow> lacks_get_fields reg i = Inr (\<not> capable reg i)"
  by (simp add: lacks_get_fields_def Decoders_in capable_def)

lemma inc32: "i < n \<Longrightarrow> n < 2 ^ 32 \<Longrightarrow> (i + 1) mod 2 ^ 32 = Suc i"
  by simp

lemma dec32:
  assumes "0 < c" and "c < (2::nat) ^ 32"
  shows "(c + 2 ^ 32 - 1) mod 2 ^ 32 = c - 1"
proof -
  from assms(1) obtain c' where c: "c = Suc c'" by (cases c) simp_all
  have "c + 2 ^ 32 - 1 = c' + 2 ^ 32" by (simp add: c)
  moreover have "c' < (2::nat) ^ 32" using assms(2) c by simp
  ultimately have "(c + 2 ^ 32 - 1) mod 2 ^ 32 = c'"
    by (simp only: mod_add_self2 mod_less)
  then show ?thesis by (simp add: c)
qed

lemma next_step:
  assumes "cur < length reg" and "length reg < 2 ^ 32"
  shows "select_next_loop reg cur =
     (if capable reg (if Suc cur = length reg then 0 else Suc cur)
      then Some (Inr (if Suc cur = length reg then 0 else Suc cur))
      else select_next_loop reg (if Suc cur = length reg then 0 else Suc cur))"
proof -
  note m = inc32 [OF assms]
  show ?thesis
  proof (cases "Suc cur = length reg")
    case True
    have z: "0 < length reg" using assms(1) by (cases reg) simp_all
    have l: "lacks_get_fields reg 0 = Inr (\<not> capable reg 0)" by (rule lacks_in [OF z])
    have d: "Decoders reg (Suc cur) = Inr None" using Decoders_end [of reg] True by simp
    show ?thesis
      apply (subst select_next_loop.simps)
      apply (simp only: m Let_def d)
      apply (simp add: l True)
      done
  next
    case False
    with assms have lt: "Suc cur < length reg" by simp
    show ?thesis
      apply (subst select_next_loop.simps)
      apply (simp only: m Let_def Decoders_in [OF lt])
      apply (simp add: lacks_in [OF lt] False)
      done
  qed
qed

lemma seek_terminator_end:
  assumes "length reg < 2 ^ 32"
  shows "i \<le> length reg \<Longrightarrow> seek_terminator reg i = Some (Inr (length reg))"
proof (induction "length reg - i" arbitrary: i)
  case 0
  then have "i = length reg" by simp
  then show ?case
    by (subst seek_terminator.simps) (simp add: Decoders_end)
next
  case (Suc k)
  then have lt: "i < length reg" by simp
  note m = inc32 [OF lt assms]
  have IH: "seek_terminator reg (Suc i) = Some (Inr (length reg))"
    using Suc lt by (intro Suc.hyps(1)) simp_all
  show ?case
    apply (subst seek_terminator.simps)
    apply (simp only: m Decoders_in [OF lt] IH)
    apply simp
    done
qed

lemma prev_step_pos:
  assumes "0 < cur" and "cur \<le> length reg" and "length reg < 2 ^ 32"
  shows "select_prev_loop reg cur =
     (if capable reg (cur - 1) then Some (Inr (cur - 1)) else select_prev_loop reg (cur - 1))"
proof -
  have "cur < (2::nat) ^ 32" using assms by simp
  note m = dec32 [OF assms(1) this]
  have lt: "cur - 1 < length reg" using assms by simp
  have nz: "(cur = 0) = False" using assms by simp
  show ?thesis
    apply (subst select_prev_loop.simps)
    apply (simp only: nz if_False option.case sum.case m Let_def lacks_in [OF lt])
    apply simp
    done
qed

lemma prev_step_zero:
  assumes "0 < length reg" and "length reg < 2 ^ 32"
  shows "select_prev_loop reg 0 = select_prev_loop reg (length reg)"
proof -
  note m = dec32 [OF assms]
  have lt: "length reg - 1 < length reg" using assms by simp
  have "select_prev_loop reg 0 =
     (if capable reg (length reg - 1) then Some (Inr (length reg - 1))
      else select_prev_loop reg (length reg - 1))"
    apply (subst select_prev_loop.simps)
    apply (simp only: refl if_True seek_terminator_end [OF assms(2) le0] option.case sum.case
        m Let_def lacks_in [OF lt])
    apply simp
    done
  also have "\<dots> = select_prev_loop reg (length reg)"
    by (rule prev_step_pos [OF assms(1) le_refl assms(2), symmetric])
  finally show ?thesis .
qed

text \<open>Forward: the next capable index above, or the wrap to the first capable index.\<close>

lemma next_within:
  assumes n32: "length reg < 2 ^ 32"
  shows "cur < m \<Longrightarrow> capable reg m \<Longrightarrow> (\<forall>i. cur < i \<and> i < m \<longrightarrow> \<not> capable reg i) \<Longrightarrow>
     select_next_loop reg cur = Some (Inr m)"
proof (induction "m - cur" arbitrary: cur)
  case 0
  then show ?case by simp
next
  case (Suc k)
  from Suc.prems(2) have mlt: "m < length reg" by (simp add: capable_def)
  with Suc.prems(1) have clt: "cur < length reg" and ne: "Suc cur \<noteq> length reg" by simp_all
  note st = next_step [OF clt n32]
  show ?case
  proof (cases "Suc cur = m")
    case True
    with Suc.prems(2) ne show ?thesis by (simp add: st)
  next
    case False
    with Suc.prems(1) have lt: "Suc cur < m" by simp
    with Suc.prems(3) have nc: "\<not> capable reg (Suc cur)" by simp
    have "select_next_loop reg (Suc cur) = Some (Inr m)"
      using Suc.hyps(2) lt Suc.prems(2,3) by (intro Suc.hyps(1)) simp_all
    with nc ne show ?thesis by (simp add: st)
  qed
qed

lemma next_to_end:
  assumes n32: "length reg < 2 ^ 32"
  shows "cur < length reg \<Longrightarrow> (\<forall>i. cur < i \<and> i < length reg \<longrightarrow> \<not> capable reg i) \<Longrightarrow>
     select_next_loop reg cur =
       (if capable reg 0 then Some (Inr 0) else select_next_loop reg 0)"
proof (induction "length reg - cur" arbitrary: cur)
  case 0
  then show ?case by simp
next
  case (Suc k)
  note st = next_step [OF Suc.prems(1) n32]
  show ?case
  proof (cases "Suc cur = length reg")
    case True
    then show ?thesis by (simp add: st)
  next
    case False
    with Suc.prems(1) have lt: "Suc cur < length reg" by simp
    with Suc.prems(2) have nc: "\<not> capable reg (Suc cur)" by simp
    have "select_next_loop reg (Suc cur) =
       (if capable reg 0 then Some (Inr 0) else select_next_loop reg 0)"
      using Suc.hyps(2) lt Suc.prems(2) by (intro Suc.hyps(1)) simp_all
    with nc False show ?thesis by (simp add: st)
  qed
qed

lemma next_wrap:
  assumes n32: "length reg < 2 ^ 32"
    and cur: "cur < length reg"
    and above: "\<forall>i. cur < i \<and> i < length reg \<longrightarrow> \<not> capable reg i"
    and m: "capable reg m"
    and below: "\<forall>i. i < m \<longrightarrow> \<not> capable reg i"
  shows "select_next_loop reg cur = Some (Inr m)"
proof (cases "m = 0")
  case True
  with m show ?thesis by (simp add: next_to_end [OF n32 cur above])
next
  case False
  then have "0 < m" by simp
  with below have nc0: "\<not> capable reg 0" by simp
  have "select_next_loop reg 0 = Some (Inr m)"
    using next_within [OF n32 \<open>0 < m\<close> m] below by simp
  with nc0 show ?thesis by (simp add: next_to_end [OF n32 cur above])
qed

text \<open>Backward: the next capable index below, or the wrap to the last capable index.\<close>

lemma prev_within:
  assumes n32: "length reg < 2 ^ 32"
  shows "m < c \<Longrightarrow> c \<le> length reg \<Longrightarrow> capable reg m \<Longrightarrow>
     (\<forall>i. m < i \<and> i < c \<longrightarrow> \<not> capable reg i) \<Longrightarrow>
     select_prev_loop reg c = Some (Inr m)"
proof (induction "c - m" arbitrary: c)
  case 0
  then show ?case by simp
next
  case (Suc k)
  from Suc.prems(1) have pos: "0 < c" by simp
  note st = prev_step_pos [OF pos Suc.prems(2) n32]
  show ?case
  proof (cases "c - 1 = m")
    case True
    with Suc.prems(3) show ?thesis by (simp add: st)
  next
    case False
    with Suc.prems(1) have lt: "m < c - 1" by simp
    with Suc.prems(4) pos have nc: "\<not> capable reg (c - 1)" by simp
    have "select_prev_loop reg (c - 1) = Some (Inr m)"
      using Suc.hyps(2) lt Suc.prems(2,3,4) by (intro Suc.hyps(1)) auto
    with nc show ?thesis by (simp add: st)
  qed
qed

lemma prev_to_start:
  assumes n32: "length reg < 2 ^ 32"
  shows "c \<le> length reg \<Longrightarrow> (\<forall>i. i < c \<longrightarrow> \<not> capable reg i) \<Longrightarrow>
     select_prev_loop reg c = select_prev_loop reg 0"
proof (induction c)
  case 0
  then show ?case by simp
next
  case (Suc c)
  have st: "select_prev_loop reg (Suc c) =
     (if capable reg c then Some (Inr c) else select_prev_loop reg c)"
    using prev_step_pos [OF _ Suc.prems(1) n32] by simp
  from Suc.prems(2) have nc: "\<not> capable reg c" by simp
  have "select_prev_loop reg c = select_prev_loop reg 0"
    using Suc.prems by (intro Suc.IH) simp_all
  with nc show ?case by (simp add: st)
qed

lemma prev_wrap:
  assumes n32: "length reg < 2 ^ 32"
    and cur: "cur < length reg"
    and below: "\<forall>i. i < cur \<longrightarrow> \<not> capable reg i"
    and m: "capable reg m"
    and above: "\<forall>i. m < i \<and> i < length reg \<longrightarrow> \<not> capable reg i"
  shows "select_prev_loop reg cur = Some (Inr m)"
proof -
  from cur have pos: "0 < length reg" by (cases reg) simp_all
  from m have mlt: "m < length reg" by (simp add: capable_def)
  have "select_prev_loop reg cur = select_prev_loop reg 0"
    using cur below by (intro prev_to_start [OF n32]) simp_all
  also have "\<dots> = select_prev_loop reg (length reg)"
    by (rule prev_step_zero [OF pos n32])
  also have "\<dots> = Some (Inr m)"
    by (rule prev_within [OF n32 mlt le_refl m above])
  finally show ?thesis .
qed

text \<open>The capable indices in increasing order.\<close>

lemma set_capable_indices: "set (capable_indices reg) = {i. capable reg i}"
  by (auto simp add: capable_indices_def capable_def)

lemma sorted_capable_indices: "sorted_wrt (<) (capable_indices reg)"
  unfolding capable_indices_def by (rule sorted_wrt_filter) simp

lemma capable_indices_less:
  "p < q \<Longrightarrow> q < length (capable_indices reg) \<Longrightarrow>
   capable_indices reg ! p < capable_indices reg ! q"
  using sorted_capable_indices [of reg] by (simp add: sorted_wrt_nth_less)

lemma capable_indices_mono:
  assumes "p < length (capable_indices reg)" and "q < length (capable_indices reg)"
    and "capable_indices reg ! p < capable_indices reg ! q"
  shows "p < q"
proof (rule ccontr)
  assume "\<not> p < q"
  then have "q = p \<or> q < p" by auto
  then show False
  proof
    assume "q = p" with assms(3) show False by simp
  next
    assume "q < p"
    from capable_indices_less [OF this assms(1)] assms(3) show False by simp
  qed
qed

lemma capable_nth: "p < length (capable_indices reg) \<Longrightarrow> capable reg (capable_indices reg ! p)"
  using set_capable_indices [of reg] nth_mem [of p "capable_indices reg"] by auto

lemma capable_position:
  "capable reg i \<Longrightarrow> \<exists>q < length (capable_indices reg). capable_indices reg ! q = i"
  using set_capable_indices [of reg] by (auto simp add: in_set_conv_nth)

lemma next_capable_nth:
  assumes n32: "length reg < 2 ^ 32" and p: "p < length (capable_indices reg)"
  shows "select_next_loop reg (capable_indices reg ! p) =
     Some (Inr (capable_indices reg ! (Suc p mod length (capable_indices reg))))"
proof (cases "Suc p < length (capable_indices reg)")
  case True
  let ?c = "capable_indices reg"
  have gap: "\<forall>i. ?c ! p < i \<and> i < ?c ! Suc p \<longrightarrow> \<not> capable reg i"
  proof (intro allI impI notI)
    fix i assume b: "?c ! p < i \<and> i < ?c ! Suc p" and "capable reg i"
    then obtain q where q: "q < length ?c" "?c ! q = i" using capable_position by blast
    from b q have "p < q" "q < Suc p"
      using capable_indices_mono [OF p q(1)] capable_indices_mono [OF q(1) True] by simp_all
    then show False by simp
  qed
  have "select_next_loop reg (?c ! p) = Some (Inr (?c ! Suc p))"
    by (rule next_within [OF n32 capable_indices_less [OF _ True] capable_nth [OF True] gap]) simp
  with True show ?thesis by simp
next
  case False
  let ?c = "capable_indices reg"
  from False p have last: "Suc p = length ?c" by simp
  have pos: "0 < length ?c" using p by arith
  have cur: "?c ! p < length reg" using capable_nth [OF p] by (simp add: capable_def)
  have above: "\<forall>i. ?c ! p < i \<and> i < length reg \<longrightarrow> \<not> capable reg i"
  proof (intro allI impI notI)
    fix i assume b: "?c ! p < i \<and> i < length reg" and "capable reg i"
    then obtain q where q: "q < length ?c" "?c ! q = i" using capable_position by blast
    from b q have "p < q" using capable_indices_mono [OF p q(1)] by simp
    with q(1) last show False by simp
  qed
  have below: "\<forall>i. i < ?c ! 0 \<longrightarrow> \<not> capable reg i"
  proof (intro allI impI notI)
    fix i assume b: "i < ?c ! 0" and "capable reg i"
    then obtain q where q: "q < length ?c" "?c ! q = i" using capable_position by blast
    from b q have "q < 0" using capable_indices_mono [OF q(1) pos] by simp
    then show False by simp
  qed
  have "select_next_loop reg (?c ! p) = Some (Inr (?c ! 0))"
    by (rule next_wrap [OF n32 cur above capable_nth [OF pos] below])
  with last show ?thesis by simp
qed

lemma prev_capable_nth:
  assumes n32: "length reg < 2 ^ 32" and p: "p < length (capable_indices reg)"
  shows "select_prev_loop reg (capable_indices reg ! p) =
     Some (Inr (capable_indices reg !
        (if p = 0 then length (capable_indices reg) - 1 else p - 1)))"
proof (cases "p = 0")
  case False
  let ?c = "capable_indices reg"
  from False p have p1: "p - 1 < length ?c" and lt: "p - 1 < p" by simp_all
  have cur: "?c ! p \<le> length reg" using capable_nth [OF p] by (simp add: capable_def)
  have gap: "\<forall>i. ?c ! (p - 1) < i \<and> i < ?c ! p \<longrightarrow> \<not> capable reg i"
  proof (intro allI impI notI)
    fix i assume b: "?c ! (p - 1) < i \<and> i < ?c ! p" and "capable reg i"
    then obtain q where q: "q < length ?c" "?c ! q = i" using capable_position by blast
    from b q have "p - 1 < q" "q < p"
      using capable_indices_mono [OF p1 q(1)] capable_indices_mono [OF q(1) p] by simp_all
    then show False by simp
  qed
  have "select_prev_loop reg (?c ! p) = Some (Inr (?c ! (p - 1)))"
    by (rule prev_within [OF n32 capable_indices_less [OF lt p] cur capable_nth [OF p1] gap])
  with False show ?thesis by simp
next
  case True
  let ?c = "capable_indices reg"
  let ?l = "length ?c - 1"
  have l: "?l < length ?c" using p by arith
  have cur: "?c ! 0 < length reg" using capable_nth [OF p] True by (simp add: capable_def)
  have below: "\<forall>i. i < ?c ! 0 \<longrightarrow> \<not> capable reg i"
  proof (intro allI impI notI)
    fix i assume b: "i < ?c ! 0" and "capable reg i"
    then obtain q where q: "q < length ?c" "?c ! q = i" using capable_position by blast
    from b q have "q < 0" using capable_indices_mono [OF q(1), of 0] p True by simp
    then show False by simp
  qed
  have above: "\<forall>i. ?c ! ?l < i \<and> i < length reg \<longrightarrow> \<not> capable reg i"
  proof (intro allI impI notI)
    fix i assume b: "?c ! ?l < i \<and> i < length reg" and "capable reg i"
    then obtain q where q: "q < length ?c" "?c ! q = i" using capable_position by blast
    from b q have "?l < q" using capable_indices_mono [OF l q(1)] by simp
    with q(1) show False by simp
  qed
  have "select_prev_loop reg (?c ! 0) = Some (Inr (?c ! ?l))"
    by (rule prev_wrap [OF n32 cur below capable_nth [OF l] above])
  with True show ?thesis by simp
qed

lemma capable_count:
  "length (capable_indices reg) = length (filter (\<lambda>d. get_fields d \<noteq> None) reg)"
proof -
  have "filter (\<lambda>d. get_fields d \<noteq> None) reg =
      filter (\<lambda>d. get_fields d \<noteq> None) (map (\<lambda>i. reg ! i) [0..<length reg])"
    by (simp add: map_nth)
  also have "\<dots> = map (\<lambda>i. reg ! i) (filter (\<lambda>i. get_fields (reg ! i) \<noteq> None) [0..<length reg])"
    by (simp add: filter_map comp_def)
  also have "filter (\<lambda>i. get_fields (reg ! i) \<noteq> None) [0..<length reg] = capable_indices reg"
    unfolding capable_indices_def by (rule filter_cong) (simp_all add: capable_def)
  finally show ?thesis by simp
qed

lemma next_terminates:
  assumes n32: "length reg < 2 ^ 32" and cur: "cur < length reg" and k: "capable reg k"
  shows "\<exists>m. select_next_loop reg cur = Some (Inr m) \<and> capable reg m"
proof (cases "\<exists>i. cur < i \<and> capable reg i")
  case True
  define m where "m = (LEAST i. cur < i \<and> capable reg i)"
  from True have m: "cur < m \<and> capable reg m"
    unfolding m_def by (rule LeastI_ex)
  have gap: "\<forall>i. cur < i \<and> i < m \<longrightarrow> \<not> capable reg i"
    using not_less_Least [of _ "\<lambda>i. cur < i \<and> capable reg i"] unfolding m_def by blast
  from next_within [OF n32 _ _ gap] m show ?thesis by blast
next
  case False
  define m where "m = (LEAST i. capable reg i)"
  from k have m: "capable reg m" unfolding m_def by (rule LeastI)
  have below: "\<forall>i. i < m \<longrightarrow> \<not> capable reg i"
    using not_less_Least [of _ "capable reg"] unfolding m_def by blast
  from False have above: "\<forall>i. cur < i \<and> i < length reg \<longrightarrow> \<not> capable reg i" by blast
  from next_wrap [OF n32 cur above m below] m show ?thesis by blast
qed

lemma prev_terminates:
  assumes n32: "length reg < 2 ^ 32" and cur: "cur < length reg" and k: "capable reg k"
  shows "\<exists>m. select_prev_loop reg cur = Some (Inr m) \<and> capable reg m"
proof (cases "\<exists>i. i < cur \<and> capable reg i")
  case True
  define S where "S = {i. i < cur \<and> capable reg i}"
  have fin: "finite S" unfolding S_def by simp
  from True have ne: "S \<noteq> {}" unfolding S_def by blast
  define m where "m = Max S"
  have "m \<in> S" unfolding m_def using fin ne by (rule Max_in)
  then have m: "m < cur" "capable reg m" unfolding S_def by simp_all
  have gap: "\<forall>i. m < i \<and> i < cur \<longrightarrow> \<not> capable reg i"
  proof (intro allI impI notI)
    fix i assume "m < i \<and> i < cur" and "capable reg i"
    then have "i \<in> S" "m < i" unfolding S_def by simp_all
    then have "i \<le> m" unfolding m_def using fin by simp
    with \<open>m < i\<close> show False by simp
  qed
  from cur have "cur \<le> length reg" by simp
  from prev_within [OF n32 m(1) this m(2) gap] m(2) show ?thesis by blast
next
  case False
  define S where "S = {i. capable reg i}"
  have "S \<subseteq> {..<length reg}" unfolding S_def by (auto simp add: capable_def)
  then have fin: "finite S" by (rule finite_subset) simp
  from k have ne: "S \<noteq> {}" unfolding S_def by blast
  define m where "m = Max S"
  have "m \<in> S" unfolding m_def using fin ne by (rule Max_in)
  then have m: "capable reg m" unfolding S_def by simp
  have above: "\<forall>i. m < i \<and> i < length reg \<longrightarrow> \<not> capable reg i"
  proof (intro allI impI notI)
    fix i assume "m < i \<and> i < length reg" and "capable reg i"
    then have "i \<in> S" "m < i" unfolding S_def by simp_all
    then have "i \<le> m" unfolding m_def using fin by simp
    with \<open>m < i\<close> show False by simp
  qed
  from False have below: "\<forall>i. i < cur \<longrightarrow> \<not> capable reg i" by blast
  from prev_wrap [OF n32 cur below m above] m show ?thesis by blast
qed

lemma select_next_decoder_eq:
  "select_next_loop reg (cur_decoder (view_privdata app)) = Some (Inr m) \<Longrightarrow>
   select_next_decoder reg app = Some (Inr (set_cur_decoder app m))"
  by (simp add: select_next_decoder_def store_cur_decoder_def set_cur_decoder_def)

lemma select_prev_decoder_eq:
  "select_prev_loop reg (cur_decoder (view_privdata app)) = Some (Inr m) \<Longrightarrow>
   select_prev_decoder reg app = Some (Inr (set_cur_decoder app m))"
  by (simp add: select_prev_decoder_def store_cur_decoder_def set_cur_decoder_def)

lemma cur_set_cur_decoder: "cur_decoder (view_privdata (set_cur_decoder app m)) = m"
  by (simp add: set_cur_decoder_def)

lemma set_cur_decoder_twice: "set_cur_decoder (set_cur_decoder app m) k = set_cur_decoder app k"
  by (simp add: set_cur_decoder_def)

lemma set_cur_decoder_same: "set_cur_decoder app (cur_decoder (view_privdata app)) = app"
  by (simp add: set_cur_decoder_def)

lemma select_next_times_nth:
  assumes n32: "length reg < 2 ^ 32"
  shows "p < length (capable_indices reg) \<Longrightarrow>
     cur_decoder (view_privdata app) = capable_indices reg ! p \<Longrightarrow>
     select_next_times reg k app =
       Some (Inr (set_cur_decoder app
          (capable_indices reg ! ((p + k) mod length (capable_indices reg)))))"
proof (induction k arbitrary: app p)
  case 0
  from set_cur_decoder_same [of app] 0 show ?case by simp
next
  case (Suc k)
  let ?K = "length (capable_indices reg)"
  let ?app1 = "set_cur_decoder app (capable_indices reg ! (Suc p mod ?K))"
  have st: "select_next_decoder reg app = Some (Inr ?app1)"
    using next_capable_nth [OF n32 Suc.prems(1)] Suc.prems(2)
    by (intro select_next_decoder_eq) simp
  have "0 < ?K" using Suc.prems(1) by arith
  then have p1: "Suc p mod ?K < ?K" by (rule mod_less_divisor)
  have "select_next_times reg k ?app1 =
      Some (Inr (set_cur_decoder ?app1 (capable_indices reg ! ((Suc p mod ?K + k) mod ?K))))"
    by (rule Suc.IH [OF p1]) (simp add: cur_set_cur_decoder)
  moreover have "(Suc p mod ?K + k) mod ?K = (p + Suc k) mod ?K"
    by (simp add: mod_add_left_eq)
  ultimately show ?case
    by (simp add: st set_cur_decoder_twice)
qed

text \<open>
  Claim C5. For a registry that the 32-bit index can address and that holds at least one
  decoder with \<open>get_fields\<close> (so it is not empty; the terminating \<open>NULL\<close> is part of the
  model of \<open>Decoders\<close>), and for every starting index within the registry,
  \<open>select_next_decoder\<close> and \<open>select_prev_decoder\<close> both return, without a fault, and
  leave the index on a decoder with \<open>get_fields\<close>.
\<close>

theorem traversal_terminates:
  assumes "length reg < 2 ^ 32" and "\<exists>i. capable reg i"
    and "cur_decoder (view_privdata app) < length reg"
  shows "(\<exists>app'. select_next_decoder reg app = Some (Inr app') \<and>
            capable reg (cur_decoder (view_privdata app'))) \<and>
         (\<exists>app'. select_prev_decoder reg app = Some (Inr app') \<and>
            capable reg (cur_decoder (view_privdata app')))"
proof -
  from assms(2) obtain k where k: "capable reg k" by blast
  from next_terminates [OF assms(1,3) k] obtain m where
    m: "select_next_loop reg (cur_decoder (view_privdata app)) = Some (Inr m)" "capable reg m"
    by blast
  from prev_terminates [OF assms(1,3) k] obtain m' where
    m': "select_prev_loop reg (cur_decoder (view_privdata app)) = Some (Inr m')" "capable reg m'"
    by blast
  from select_next_decoder_eq [OF m(1)] select_prev_decoder_eq [OF m'(1)] m(2) m'(2)
  show ?thesis by (simp add: cur_set_cur_decoder)
qed

theorem traversal_terminates_witness:
  "length reg3 < 2 ^ 32 \<and> capable reg3 0 \<and>
   cur_decoder (view_privdata (build_app 1)) < length reg3 \<and>
   \<not> capable reg3 (cur_decoder (view_privdata (build_app 1))) \<and>
   (\<exists>app'. select_next_decoder reg3 (build_app 1) = Some (Inr app') \<and>
            capable reg3 (cur_decoder (view_privdata app'))) \<and>
   (\<exists>app'. select_prev_decoder reg3 (build_app 1) = Some (Inr app') \<and>
            capable reg3 (cur_decoder (view_privdata app')))"
proof -
  have h1: "length reg3 < 2 ^ 32" by (simp add: reg3_def)
  have h2: "capable reg3 0" by (simp add: capable_def reg3_def decoder_a_def)
  then have h2': "\<exists>i. capable reg3 i" by blast
  have h3: "cur_decoder (view_privdata (build_app 1)) < length reg3"
    by (simp add: reg3_def build_app_def)
  have h4: "\<not> capable reg3 (cur_decoder (view_privdata (build_app 1)))"
    by (simp add: capable_def reg3_def build_app_def decoder_b_def)
  from traversal_terminates [OF h1 h2' h3] h1 h2 h3 h4 show ?thesis by blast
qed

text \<open>
  Claim C4. For such a registry and every starting index that points at a decoder with
  \<open>get_fields\<close>: \<open>select_next_decoder\<close> and \<open>select_prev_decoder\<close> return and leave the
  index on a decoder with \<open>get_fields\<close>; from the last capable index the forward
  traversal wraps to the first capable index, and from the first capable index the
  backward traversal wraps to the last; and \<open>select_next_decoder\<close> applied exactly \<open>K\<close>
  times, \<open>K\<close> the number of decoders of the registry with \<open>get_fields\<close>, returns the
  application object to its starting state.
\<close>

theorem decoder_traversal:
  assumes "length reg < 2 ^ 32" and "capable reg (cur_decoder (view_privdata app))"
  shows "(\<exists>app'. select_next_decoder reg app = Some (Inr app') \<and>
            capable reg (cur_decoder (view_privdata app'))) \<and>
         (\<exists>app'. select_prev_decoder reg app = Some (Inr app') \<and>
            capable reg (cur_decoder (view_privdata app'))) \<and>
         (cur_decoder (view_privdata app) = last (capable_indices reg) \<longrightarrow>
            select_next_decoder reg app =
              Some (Inr (set_cur_decoder app (hd (capable_indices reg))))) \<and>
         (cur_decoder (view_privdata app) = hd (capable_indices reg) \<longrightarrow>
            select_prev_decoder reg app =
              Some (Inr (set_cur_decoder app (last (capable_indices reg))))) \<and>
         select_next_times reg (length (filter (\<lambda>d. get_fields d \<noteq> None) reg)) app =
           Some (Inr app)"
proof -
  let ?c = "capable_indices reg"
  let ?K = "length ?c"
  let ?cur = "cur_decoder (view_privdata app)"
  note n32 = assms(1)
  from capable_position [OF assms(2)] obtain p where p: "p < ?K" "?c ! p = ?cur" by blast
  then have pos: "0 < ?K" by arith
  then have ne: "?c \<noteq> []" by simp
  have last: "last ?c = ?c ! (?K - 1)" using ne by (rule last_conv_nth)
  have hd: "hd ?c = ?c ! 0" using ne by (rule hd_conv_nth)
  have l: "?K - 1 < ?K" using pos by arith
  have nxt: "select_next_decoder reg app = Some (Inr (set_cur_decoder app (?c ! (Suc p mod ?K))))"
    using next_capable_nth [OF n32 p(1)] p(2) by (intro select_next_decoder_eq) simp
  have prv: "select_prev_decoder reg app =
      Some (Inr (set_cur_decoder app (?c ! (if p = 0 then ?K - 1 else p - 1))))"
    using prev_capable_nth [OF n32 p(1)] p(2) by (intro select_prev_decoder_eq) simp
  have "Suc p mod ?K < ?K" using pos by (rule mod_less_divisor)
  then have "capable reg (?c ! (Suc p mod ?K))" by (rule capable_nth)
  then have c1: "\<exists>app'. select_next_decoder reg app = Some (Inr app') \<and>
            capable reg (cur_decoder (view_privdata app'))"
    using nxt by (simp add: cur_set_cur_decoder)
  have "(if p = 0 then ?K - 1 else p - 1) < ?K" using p(1) by (auto intro: less_imp_diff_less)
  then have c2: "\<exists>app'. select_prev_decoder reg app = Some (Inr app') \<and>
            capable reg (cur_decoder (view_privdata app'))"
    using prv capable_nth [of "if p = 0 then ?K - 1 else p - 1" reg]
    by (simp add: cur_set_cur_decoder)
  have c3: "?cur = last ?c \<longrightarrow>
      select_next_decoder reg app = Some (Inr (set_cur_decoder app (hd ?c)))"
  proof
    assume a: "?cur = last ?c"
    have "Suc (?K - 1) mod ?K = 0" using pos by simp
    with next_capable_nth [OF n32 l]
    have "select_next_loop reg ?cur = Some (Inr (hd ?c))" by (simp add: a last hd)
    then show "select_next_decoder reg app = Some (Inr (set_cur_decoder app (hd ?c)))"
      by (rule select_next_decoder_eq)
  qed
  have c4: "?cur = hd ?c \<longrightarrow>
      select_prev_decoder reg app = Some (Inr (set_cur_decoder app (last ?c)))"
  proof
    assume a: "?cur = hd ?c"
    from prev_capable_nth [OF n32 pos]
    have "select_prev_loop reg ?cur = Some (Inr (last ?c))" by (simp add: a last hd)
    then show "select_prev_decoder reg app = Some (Inr (set_cur_decoder app (last ?c)))"
      by (rule select_prev_decoder_eq)
  qed
  have "select_next_times reg ?K app = Some (Inr (set_cur_decoder app (?c ! ((p + ?K) mod ?K))))"
    using p by (intro select_next_times_nth [OF n32]) simp_all
  moreover have "(p + ?K) mod ?K = p" using p(1) by simp
  ultimately have "select_next_times reg ?K app = Some (Inr app)"
    using p(2) by (simp add: set_cur_decoder_same)
  then have c5: "select_next_times reg (length (filter (\<lambda>d. get_fields d \<noteq> None) reg)) app =
      Some (Inr app)"
    by (simp add: capable_count)
  from c1 c2 c3 c4 c5 show ?thesis by blast
qed

lemma reg3_indices: "capable_indices reg3 = [0, 2]"
  by (simp add: capable_indices_def capable_def reg3_def decoder_a_def decoder_b_def
      decoder_c_def)

theorem decoder_traversal_witness:
  "length reg3 < 2 ^ 32 \<and>
   capable reg3 (cur_decoder (view_privdata (build_app 2))) \<and>
   capable reg3 (cur_decoder (view_privdata (build_app 0))) \<and>
   select_next_decoder reg3 (build_app 2) = Some (Inr (build_app 0)) \<and>
   select_prev_decoder reg3 (build_app 0) = Some (Inr (build_app 2)) \<and>
   select_next_times reg3 2 (build_app 2) = Some (Inr (build_app 2))"
proof -
  have h1: "length reg3 < 2 ^ 32" by (simp add: reg3_def)
  have h2: "capable reg3 (cur_decoder (view_privdata (build_app 2)))"
    by (simp add: capable_def reg3_def build_app_def decoder_c_def)
  have h0: "capable reg3 (cur_decoder (view_privdata (build_app 0)))"
    by (simp add: capable_def reg3_def build_app_def decoder_a_def)
  have k: "length (filter (\<lambda>d. get_fields d \<noteq> None) reg3) = 2"
    by (simp add: reg3_def decoder_a_def decoder_b_def decoder_c_def)
  have s20: "set_cur_decoder (build_app 2) 0 = build_app 0"
    and s02: "set_cur_decoder (build_app 0) 2 = build_app 2"
    by (simp_all add: set_cur_decoder_def build_app_def)
  have c2: "cur_decoder (view_privdata (build_app 2)) = 2"
    and c0: "cur_decoder (view_privdata (build_app 0)) = 0"
    by (simp_all add: build_app_def)
  note t2 = decoder_traversal [OF h1 h2]
  note t0 = decoder_traversal [OF h1 h0]
  from t2 have "cur_decoder (view_privdata (build_app 2)) = last (capable_indices reg3) \<longrightarrow>
      select_next_decoder reg3 (build_app 2) =
        Some (Inr (set_cur_decoder (build_app 2) (hd (capable_indices reg3))))"
    by blast
  then have a: "select_next_decoder reg3 (build_app 2) = Some (Inr (build_app 0))"
    by (simp add: reg3_indices c2 s20)
  from t2 have "select_next_times reg3 (length (filter (\<lambda>d. get_fields d \<noteq> None) reg3))
      (build_app 2) = Some (Inr (build_app 2))"
    by blast
  then have b: "select_next_times reg3 2 (build_app 2) = Some (Inr (build_app 2))"
    by (simp only: k)
  from t0 have "cur_decoder (view_privdata (build_app 0)) = hd (capable_indices reg3) \<longrightarrow>
      select_prev_decoder reg3 (build_app 0) =
        Some (Inr (set_cur_decoder (build_app 0) (last (capable_indices reg3))))"
    by blast
  then have c: "select_prev_decoder reg3 (build_app 0) = Some (Inr (build_app 2))"
    by (simp add: reg3_indices c0 s02)
  from h1 h2 h0 a b c show ?thesis by blast
qed

section \<open>The message builder\<close>

text \<open>
  Claim C7. When no decoder is selected and the browsed index points at a decoder of the
  registry with \<open>get_fields\<close>, a short press of OK returns without a fault; it selects
  the browsed decoder and stores a new field set, obtained by calling that decoder's
  \<open>get_fields\<close> on the result of \<open>fieldset_new\<close>; the indices are unchanged; and from
  then on every input is dispatched to \<open>process_input_set_fields\<close>, the handler of the
  field editing state.
\<close>

theorem ok_selects_decoder:
  assumes "decoder (view_privdata app) = None"
    and "cur_decoder (view_privdata app) < length reg"
    and "get_fields (reg ! cur_decoder (view_privdata app)) = Some gf"
  shows "\<exists>app'.
     process_input_build_message reg app \<lparr>input_key = InputKeyOk, input_type = InputTypeShort\<rparr> =
       Some (Inr app') \<and>
     decoder (view_privdata app') = Some (reg ! cur_decoder (view_privdata app)) \<and>
     fieldset (view_privdata app') = Some (gf fieldset_new) \<and>
     cur_decoder (view_privdata app') = cur_decoder (view_privdata app) \<and>
     cur_field (view_privdata app') = cur_field (view_privdata app) \<and>
     (\<forall>input. process_input_build_message reg app' input =
        Some (Inr (process_input_set_fields app' input)))"
  using assms
  by (simp add: process_input_build_message_def process_input_select_decoder_def Let_def
      Decoders_in)

theorem ok_selects_decoder_witness:
  "decoder (view_privdata (build_app 2)) = None \<and>
   cur_decoder (view_privdata (build_app 2)) < length reg3 \<and>
   (\<exists>app'.
     process_input_build_message reg3 (build_app 2)
       \<lparr>input_key = InputKeyOk, input_type = InputTypeShort\<rparr> = Some (Inr app') \<and>
     decoder (view_privdata app') = Some decoder_c \<and>
     fieldset (view_privdata app') = Some [7])"
proof -
  have h1: "decoder (view_privdata (build_app 2)) = None" by (simp add: build_app_def)
  have h2: "cur_decoder (view_privdata (build_app 2)) < length reg3"
    by (simp add: build_app_def reg3_def)
  have h3: "get_fields (reg3 ! cur_decoder (view_privdata (build_app 2))) = Some (\<lambda>fs. fs @ [7])"
    by (simp add: build_app_def reg3_def decoder_c_def)
  have d: "reg3 ! cur_decoder (view_privdata (build_app 2)) = decoder_c"
    by (simp add: build_app_def reg3_def)
  from ok_selects_decoder [OF h1 h2 h3] h1 h2 show ?thesis
    by (auto simp add: d fieldset_new_def)
qed

text \<open>
  Claim C6. The code at the failing input: with a decoder selected, every input event
  leaves the application object as it is. In particular, with two fields and
  \<open>cur_field = 0\<close>, a short press of down does not move to the next field, and a long
  press of OK changes nothing either: no signal is built.
\<close>

theorem set_fields_ignores_input:
  "process_input_build_message reg
     (app\<lparr>view_privdata := (view_privdata app)\<lparr>decoder := Some d\<rparr>\<rparr>) input =
     Some (Inr (app\<lparr>view_privdata := (view_privdata app)\<lparr>decoder := Some d\<rparr>\<rparr>)) \<and>
   fieldset (view_privdata editing_app) = Some [1, 2] \<and>
   cur_field (view_privdata editing_app) = 0 \<and>
   process_input_build_message reg3 editing_app
     \<lparr>input_key = InputKeyDown, input_type = InputTypeShort\<rparr> = Some (Inr editing_app) \<and>
   process_input_build_message reg3 editing_app
     \<lparr>input_key = InputKeyOk, input_type = InputTypeLong\<rparr> = Some (Inr editing_app)"
  by (simp add: process_input_build_message_def process_input_set_fields_def editing_app_def)

end
